theory Spec2Isabelle
  imports Main
begin

section \<open>The benchmark cut utility (benchmark\_code/cut.py)\<close>

text \<open>
  The program is Python 2: strings are byte strings, modelled as \<open>string\<close> (a list of
  \<open>char\<close>). The parsed command line (\<open>args.fields\<close>, a list of unbounded integers,
  and \<open>args.files\<close>, a list of paths) is the input of \<open>main\<close>; the file system and
  the standard input are explicit arguments, the standard output and the uncaught
  exception (if any) are the result.
\<close>

subsection \<open>Characters and errors\<close>

definition tab :: char where
  "tab = CHR 0x09"

definition nl :: char where
  "nl = CHR 0x0A"

datatype py_error = IndexError | IOError

subsection \<open>The string and list primitives the program calls\<close>

text \<open>\<open>s.rstrip(chars)\<close>: drop every trailing character that occurs in \<open>chars\<close>.\<close>

definition rstrip :: "string \<Rightarrow> string \<Rightarrow> string" where
  "rstrip chars s = rev (dropWhile (\<lambda>c. c \<in> set chars) (rev s))"

text \<open>
  \<open>s.split(sep)\<close> for a one-character separator: the pieces between the separators, empty
  pieces included; the result is never the empty list (\<open>''.split('\t') == ['']\<close>).
\<close>

fun split :: "char \<Rightarrow> string \<Rightarrow> string list" where
  "split sep [] = [[]]"
| "split sep (c # cs) =
     (if c = sep then [] # split sep cs
      else (case split sep cs of
              [] \<Rightarrow> [[c]]
            | f # fs \<Rightarrow> (c # f) # fs))"

text \<open>\<open>sep.join(xs)\<close>.\<close>

fun join :: "string \<Rightarrow> string list \<Rightarrow> string" where
  "join sep [] = []"
| "join sep [x] = x"
| "join sep (x # y # ys) = x @ sep @ join sep (y # ys)"

text \<open>
  The subscript \<open>xs[i]\<close> of a list: \<open>0 .. len(xs) - 1\<close> index from the front,
  \<open>-len(xs) .. -1\<close> from the back (\<open>xs[-1]\<close> is the last element), and every other
  index raises \<open>IndexError\<close>.
\<close>

definition getitem :: "'a list \<Rightarrow> int \<Rightarrow> py_error + 'a" where
  "getitem xs i =
     (if 0 \<le> i \<and> i < int (length xs) then Inr (xs ! nat i)
      else if i < 0 \<and> - int (length xs) \<le> i then Inr (xs ! nat (int (length xs) + i))
      else Inl IndexError)"

text \<open>
  The list comprehension \<open>[fields[x] for x in field_indicies]\<close>: the lookups run from left
  to right and the first one that raises ends the comprehension.
\<close>

fun select_fields :: "string list \<Rightarrow> int list \<Rightarrow> py_error + string list" where
  "select_fields fields [] = Inr []"
| "select_fields fields (x # xs) =
     (case getitem fields x of
        Inl e \<Rightarrow> Inl e
      | Inr v \<Rightarrow> (case select_fields fields xs of
                   Inl e \<Rightarrow> Inl e
                 | Inr vs \<Rightarrow> Inr (v # vs)))"

subsection \<open>Reading lines\<close>

text \<open>
  Iterating over an open file yields its content cut after every newline; each line keeps
  its newline, and a last line without one is yielded as it is.
\<close>

fun readlines :: "string \<Rightarrow> string list" where
  "readlines [] = []"
| "readlines (c # cs) =
     (if c = nl then [c] # readlines cs
      else (case readlines cs of
              [] \<Rightarrow> [[c]]
            | l # ls \<Rightarrow> (c # l) # ls))"

text \<open>
  \<open>fileinput.input(files)\<close>: the lines of the named files, one file after the other. The
  name \<open>-\<close> stands for the standard input, which is read to its end (a second \<open>-\<close> finds
  it exhausted); an empty list of names stands for \<open>['-']\<close>. A file is opened when the
  iteration reaches it, so a name that cannot be opened raises \<open>IOError\<close> after the lines
  of the files before it. The iterator is modelled by the list of what it yields; an
  \<open>Inl\<close> item is an exception raised by the iterator, and nothing follows it.
\<close>

fun fileinput_lines ::
  "(string \<Rightarrow> string option) \<Rightarrow> string \<Rightarrow> string list \<Rightarrow> (py_error + string) list" where
  "fileinput_lines fs sin [] = []"
| "fileinput_lines fs sin (f # rest) =
     (if f = ''-'' then map Inr (readlines sin) @ fileinput_lines fs [] rest
      else (case fs f of
              None \<Rightarrow> [Inl IOError]
            | Some content \<Rightarrow> map Inr (readlines content) @ fileinput_lines fs sin rest))"

definition fileinput_input ::
  "(string \<Rightarrow> string option) \<Rightarrow> string \<Rightarrow> string list \<Rightarrow> (py_error + string) list" where
  "fileinput_input fs sin files =
     (if files = [] then fileinput_lines fs sin [''-''] else fileinput_lines fs sin files)"

subsection \<open>The program\<close>

text \<open>\<open>field_indicies = [x - 1 for x in args.fields]\<close>\<close>

definition field_indicies :: "int list \<Rightarrow> int list" where
  "field_indicies fields = map (\<lambda>x. x - 1) fields"

text \<open>
  The body of the loop up to the argument of \<open>print\<close>:
  \<open>fields = line.rstrip('\n').split('\t')\<close> and
  \<open>'\t'.join([fields[x] for x in field_indicies])\<close>.
\<close>

definition line_fields :: "string \<Rightarrow> string list" where
  "line_fields line = split tab (rstrip [nl] line)"

definition cut_line :: "int list \<Rightarrow> string \<Rightarrow> py_error + string" where
  "cut_line idx line =
     (case select_fields (line_fields line) idx of
        Inl e \<Rightarrow> Inl e
      | Inr sel \<Rightarrow> Inr (join [tab] sel))"

text \<open>The statement \<open>print s\<close> writes \<open>s\<close> and a newline to the standard output.\<close>

definition print :: "string \<Rightarrow> string \<Rightarrow> string" where
  "print out s = out @ s @ [nl]"

text \<open>
  What a run leaves behind: the text written to the standard output, and the exception
  that ended the run, if one did. Nothing in the program catches an exception.
\<close>

record outcome =
  stdout :: string
  fault :: "py_error option"

fun main_loop :: "int list \<Rightarrow> (py_error + string) list \<Rightarrow> string \<Rightarrow> outcome" where
  "main_loop idx [] out = \<lparr>stdout = out, fault = None\<rparr>"
| "main_loop idx (Inl e # rest) out = \<lparr>stdout = out, fault = Some e\<rparr>"
| "main_loop idx (Inr line # rest) out =
     (case cut_line idx line of
        Inl e \<Rightarrow> \<lparr>stdout = out, fault = Some e\<rparr>
      | Inr s \<Rightarrow> main_loop idx rest (print out s))"

definition main ::
  "(string \<Rightarrow> string option) \<Rightarrow> string \<Rightarrow> int list \<Rightarrow> string list \<Rightarrow> outcome" where
  "main fs sin args_fields args_files =
     main_loop (field_indicies args_fields) (fileinput_input fs sin args_files) []"

text \<open>
  The exit status of the interpreter: 0 when the script ran to its end, 1 when an
  exception was not caught.
\<close>

definition exit_status :: "outcome \<Rightarrow> nat" where
  "exit_status r = (case fault r of None \<Rightarrow> 0 | Some e \<Rightarrow> 1)"

section \<open>Properties of the primitives\<close>

subsection \<open>Splitting and joining\<close>

lemma split_not_Nil [simp]: "split c s \<noteq> []"
  by (induction s) (auto split: list.splits)

lemma join_Cons: "xs \<noteq> [] \<Longrightarrow> join sep (x # xs) = x @ sep @ join sep xs"
  by (cases xs) simp_all

lemma join_split: "join [c] (split c s) = s"
proof (induction s)
  case Nil
  show ?case by simp
next
  case (Cons a s)
  obtain f fs where sp: "split c s = f # fs"
    by (cases "split c s") simp_all
  show ?case
  proof (cases "a = c")
    case True
    then show ?thesis using Cons by (simp add: join_Cons)
  next
    case False
    then show ?thesis using Cons sp by (cases fs) simp_all
  qed
qed

lemma split_no_sep: "f \<in> set (split c s) \<Longrightarrow> c \<notin> set f"
  by (induction s arbitrary: f) (auto split: if_splits list.splits)

lemma split_subset: "f \<in> set (split c s) \<Longrightarrow> set f \<subseteq> set s"
proof (induction s arbitrary: f)
  case Nil
  then show ?case by simp
next
  case (Cons a s)
  obtain g gs where sp: "split c s = g # gs"
    by (cases "split c s") simp_all
  have g: "set g \<subseteq> set s" and gs: "\<And>h. h \<in> set gs \<Longrightarrow> set h \<subseteq> set s"
    using Cons.IH sp by simp_all
  show ?case
  proof (cases "a = c")
    case True
    then have "f = [] \<or> f = g \<or> f \<in> set gs" using Cons.prems sp by simp
    then show ?thesis using g gs by auto
  next
    case False
    then have "f = a # g \<or> f \<in> set gs" using Cons.prems sp by simp
    then show ?thesis using g gs by auto
  qed
qed

lemma split_sep_free: "c \<notin> set s \<Longrightarrow> split c s = [s]"
  by (induction s) auto

lemma split_append_sep: "c \<notin> set x \<Longrightarrow> split c (x @ c # s) = x # split c s"
  by (induction x) auto

lemma split_join:
  "xs \<noteq> [] \<Longrightarrow> (\<forall>f\<in>set xs. c \<notin> set f) \<Longrightarrow> split c (join [c] xs) = xs"
proof (induction xs)
  case Nil
  then show ?case by simp
next
  case (Cons x xs)
  show ?case
  proof (cases "xs = []")
    case True
    then show ?thesis using Cons.prems by (simp add: split_sep_free)
  next
    case False
    then show ?thesis using Cons by (simp add: join_Cons split_append_sep)
  qed
qed

subsection \<open>Indexing\<close>

lemma getitem_Inr_iff:
  "getitem xs i = Inr v \<longleftrightarrow>
     - int (length xs) \<le> i \<and> i < int (length xs) \<and>
     v = xs ! nat (if i < 0 then int (length xs) + i else i)"
  by (auto simp: getitem_def Let_def)

lemma getitem_Inl_iff:
  "getitem xs i = Inl e \<longleftrightarrow> e = IndexError \<and> (i < - int (length xs) \<or> int (length xs) \<le> i)"
  by (auto simp: getitem_def Let_def)

lemma select_fields_Inr_iff:
  "select_fields fs xs = Inr vs \<longleftrightarrow>
     (\<forall>x\<in>set xs. - int (length fs) \<le> x \<and> x < int (length fs)) \<and>
     vs = map (\<lambda>x. fs ! nat (if x < 0 then int (length fs) + x else x)) xs"
proof (induction xs arbitrary: vs)
  case Nil
  show ?case by auto
next
  case (Cons x xs)
  show ?case
  proof (cases "getitem fs x")
    case (Inl e)
    then show ?thesis using getitem_Inl_iff[of fs x e] by auto
  next
    case (Inr v)
    note gv = Inr
    show ?thesis
    proof (cases "select_fields fs xs")
      case (Inl e)
      then have "\<not> (\<forall>x\<in>set xs. - int (length fs) \<le> x \<and> x < int (length fs))"
        using Cons.IH[of "map (\<lambda>x. fs ! nat (if x < 0 then int (length fs) + x else x)) xs"]
        by simp
      then show ?thesis using gv Inl by auto
    next
      case (Inr ws)
      then show ?thesis using gv Cons.IH[of ws] getitem_Inr_iff[of fs x v] by auto
    qed
  qed
qed

lemma select_fields_error: "select_fields fs xs = Inl e \<Longrightarrow> e = IndexError"
proof (induction xs)
  case Nil
  then show ?case by simp
next
  case (Cons x xs)
  then show ?case
    by (cases "getitem fs x"; cases "select_fields fs xs")
       (simp_all add: getitem_Inl_iff)
qed

lemma select_fields_Inl_iff:
  "select_fields fs xs = Inl e \<longleftrightarrow>
     e = IndexError \<and> (\<exists>x\<in>set xs. x < - int (length fs) \<or> int (length fs) \<le> x)"
proof (cases "select_fields fs xs")
  case (Inl e')
  have "\<not> (\<forall>x\<in>set xs. - int (length fs) \<le> x \<and> x < int (length fs))"
    using Inl select_fields_Inr_iff[of fs xs] by auto
  then have "\<exists>x\<in>set xs. x < - int (length fs) \<or> int (length fs) \<le> x"
    by (auto simp: not_le not_less)
  moreover have "e' = IndexError" using Inl by (rule select_fields_error)
  ultimately show ?thesis using Inl by auto
next
  case (Inr vs)
  then have "\<forall>x\<in>set xs. - int (length fs) \<le> x \<and> x < int (length fs)"
    using select_fields_Inr_iff[of fs xs vs] by simp
  then have "\<not> (\<exists>x\<in>set xs. x < - int (length fs) \<or> int (length fs) \<le> x)"
    by (auto simp: not_le not_less)
  then show ?thesis using Inr by simp
qed

subsection \<open>Stripping newlines\<close>

lemma rstrip_snoc_nl: "rstrip [nl] (s @ [nl]) = rstrip [nl] s"
  by (simp add: rstrip_def)

lemma rstrip_id: "s = [] \<or> last s \<noteq> nl \<Longrightarrow> rstrip [nl] s = s"
  by (cases s rule: rev_cases) (simp_all add: rstrip_def)



subsection \<open>Lines of a file\<close>

lemma concat_readlines: "concat (readlines s) = s"
  by (induction s) (auto split: list.splits)

lemma readlines_line: "l \<in> set (readlines s) \<Longrightarrow> l \<noteq> [] \<and> nl \<notin> set (butlast l)"
  by (induction s arbitrary: l) (auto split: if_splits list.splits)

lemma readlines_append:
  "a = [] \<or> last a = nl \<Longrightarrow> readlines (a @ b) = readlines a @ readlines b"
proof (induction a)
  case Nil
  show ?case by simp
next
  case (Cons x a)
  show ?case
  proof (cases "a = []")
    case True
    then show ?thesis using Cons.prems by simp
  next
    case False
    then have "readlines (a @ b) = readlines a @ readlines b"
      using Cons by simp
    moreover have "readlines a \<noteq> []" using False by (cases a) (auto split: list.splits)
    ultimately show ?thesis by (cases "readlines a") auto
  qed
qed

subsection \<open>The loop\<close>

lemma main_loop_append:
  "main_loop idx (xs @ ys) out =
     (if fault (main_loop idx xs out) = None
      then main_loop idx ys (stdout (main_loop idx xs out))
      else main_loop idx xs out)"
proof (induction idx xs out rule: main_loop.induct)
  case (1 idx out)
  show ?case by simp
next
  case (2 idx e rest out)
  show ?case by simp
next
  case (3 idx line rest out)
  then show ?case by (cases "cut_line idx line") simp_all
qed

section \<open>Properties of one loop iteration\<close>

lemma line_fields_not_Nil [simp]: "line_fields line \<noteq> []"
  by (simp add: line_fields_def)

lemma join_line_fields: "join [tab] (line_fields line) = rstrip [nl] line"
  by (simp add: line_fields_def join_split)




lemma cut_line_error: "cut_line idx line = Inl e \<Longrightarrow> e = IndexError"
  by (auto simp: cut_line_def split: sum.splits dest: select_fields_error)

lemma cut_line_Inl_iff:
  "cut_line (field_indicies ps) line = Inl IndexError \<longleftrightarrow>
     (\<exists>p\<in>set ps. p < 1 - int (length (line_fields line)) \<or> int (length (line_fields line)) < p)"
proof -
  have "cut_line (field_indicies ps) line = Inl IndexError \<longleftrightarrow>
        select_fields (line_fields line) (field_indicies ps) = Inl IndexError"
    by (simp add: cut_line_def split: sum.splits)
  also have "\<dots> \<longleftrightarrow> (\<exists>x\<in>set (field_indicies ps).
        x < - int (length (line_fields line)) \<or> int (length (line_fields line)) \<le> x)"
    by (simp add: select_fields_Inl_iff)
  also have "\<dots> \<longleftrightarrow> (\<exists>p\<in>set ps.
        p - 1 < - int (length (line_fields line)) \<or> int (length (line_fields line)) \<le> p - 1)"
    by (simp add: field_indicies_def)
  also have "\<dots> \<longleftrightarrow> (\<exists>p\<in>set ps.
        p < 1 - int (length (line_fields line)) \<or> int (length (line_fields line)) < p)"
  proof -
    have "(p - 1 < - n \<or> n \<le> p - 1) \<longleftrightarrow> (p < 1 - n \<or> n < p)" for p n :: int
      by linarith
    then show ?thesis by simp
  qed
  finally show ?thesis .
qed

lemma cut_line_in_range:
  assumes "\<forall>p\<in>set ps. 1 - int (length (line_fields line)) \<le> p \<and> p \<le> int (length (line_fields line))"
  shows "cut_line (field_indicies ps) line =
     Inr (join [tab] (map (\<lambda>p. if p \<le> 0 then rev (line_fields line) ! nat (- p)
                                else line_fields line ! (nat p - 1)) ps))"
proof -
  let ?fs = "line_fields line"
  let ?n = "int (length ?fs)"
  have rng: "\<forall>x\<in>set (field_indicies ps). - ?n \<le> x \<and> x < ?n"
    using assms by (auto simp: field_indicies_def)
  have sel: "select_fields ?fs (field_indicies ps) =
      Inr (map (\<lambda>x. ?fs ! nat (if x < 0 then ?n + x else x)) (field_indicies ps))"
    using rng select_fields_Inr_iff[of ?fs "field_indicies ps"] by simp
  have "map (\<lambda>x. ?fs ! nat (if x < 0 then ?n + x else x)) (field_indicies ps)
      = map (\<lambda>p. if p \<le> 0 then rev ?fs ! nat (- p) else ?fs ! (nat p - 1)) ps"
    unfolding field_indicies_def map_map
  proof (rule map_cong[OF refl])
    fix p assume p: "p \<in> set ps"
    then have b: "1 - ?n \<le> p" "p \<le> ?n" using assms by auto
    show "((\<lambda>x. ?fs ! nat (if x < 0 then ?n + x else x)) \<circ> (\<lambda>x. x - 1)) p
        = (if p \<le> 0 then rev ?fs ! nat (- p) else ?fs ! (nat p - 1))"
    proof (cases "p \<le> 0")
      case True
      have lt: "nat (- p) < length ?fs" using b True by linarith
      have "rev ?fs ! nat (- p) = ?fs ! (length ?fs - Suc (nat (- p)))"
        using lt by (rule rev_nth)
      moreover have "nat (?n + (p - 1)) = length ?fs - Suc (nat (- p))"
        using b True by linarith
      ultimately show ?thesis using True by simp
    next
      case False
      then have "nat (p - 1) = nat p - 1" by linarith
      then show ?thesis using False by simp
    qed
  qed
  then show ?thesis using sel by (simp add: cut_line_def)
qed

subsection \<open>Runs of the loop and of the line iterator\<close>

lemma main_loop_lines_fault:
  "fault (main_loop idx (map Inr ls) out) = None \<or>
   fault (main_loop idx (map Inr ls) out) = Some IndexError"
proof (induction ls arbitrary: out)
  case Nil
  show ?case by simp
next
  case (Cons l ls)
  show ?case
  proof (cases "cut_line idx l")
    case (Inl e)
    then show ?thesis using cut_line_error[OF Inl] by simp
  next
    case (Inr s)
    then show ?thesis using Cons[of "print out s"] by simp
  qed
qed

lemma fileinput_lines_wf:
  "Inr l \<in> set (fileinput_lines fs sin files) \<Longrightarrow> l \<noteq> [] \<and> nl \<notin> set (butlast l)"
proof (induction files arbitrary: sin)
  case Nil
  then show ?case by simp
next
  case (Cons f files)
  show ?case
  proof (cases "f = ''-''")
    case True
    then have "l \<in> set (readlines sin) \<or> Inr l \<in> set (fileinput_lines fs [] files)"
      using Cons.prems by auto
    then show ?thesis using readlines_line[of l sin] Cons.IH[of "[]"] by blast
  next
    case False
    show ?thesis
    proof (cases "fs f")
      case None
      then show ?thesis using False Cons.prems by simp
    next
      case (Some c)
      then have "l \<in> set (readlines c) \<or> Inr l \<in> set (fileinput_lines fs sin files)"
        using False Cons.prems by auto
      then show ?thesis using readlines_line[of l c] Cons.IH[of sin] by blast
    qed
  qed
qed

lemma fileinput_input_Nil: "fileinput_input fs sin [] = fileinput_lines fs sin [''-'']"
  by (simp add: fileinput_input_def del: fileinput_lines.simps)

lemma fileinput_input_files:
  "files \<noteq> [] \<Longrightarrow> fileinput_input fs sin files = fileinput_lines fs sin files"
  by (simp add: fileinput_input_def)

lemma fileinput_input_wf:
  "Inr l \<in> set (fileinput_input fs sin files) \<Longrightarrow> l \<noteq> [] \<and> nl \<notin> set (butlast l)"
proof (cases "files = []")
  case True
  assume "Inr l \<in> set (fileinput_input fs sin files)"
  then have "Inr l \<in> set (fileinput_lines fs sin [''-''])"
    unfolding True fileinput_input_Nil .
  then show ?thesis by (rule fileinput_lines_wf)
next
  case False
  assume "Inr l \<in> set (fileinput_input fs sin files)"
  then have "Inr l \<in> set (fileinput_lines fs sin files)"
    unfolding fileinput_input_files[OF False] .
  then show ?thesis by (rule fileinput_lines_wf)
qed

lemma fileinput_lines_empty:
  "(''-'' \<in> set files \<longrightarrow> sin = []) \<Longrightarrow> (\<forall>f\<in>set files. f \<noteq> ''-'' \<longrightarrow> fs f = Some []) \<Longrightarrow>
   fileinput_lines fs sin files = []"
proof (induction files arbitrary: sin)
  case Nil
  show ?case by simp
next
  case (Cons f files)
  show ?case
  proof (cases "f = ''-''")
    case True
    then have "sin = []" using Cons.prems by simp
    moreover have "fileinput_lines fs [] files = []"
      using Cons.prems by (intro Cons.IH) auto
    ultimately show ?thesis using True by simp
  next
    case False
    then have "fs f = Some []" using Cons.prems by simp
    moreover have "fileinput_lines fs sin files = []"
      using Cons.prems False by (intro Cons.IH) auto
    ultimately show ?thesis using False by simp
  qed
qed

lemma main_loop_step:
  "cut_line idx line = Inr s \<Longrightarrow> main_loop idx (Inr line # rest) out = main_loop idx rest (out @ s @ [nl])"
  by (simp add: print_def)

lemma main_loop_fault_step:
  "cut_line idx line = Inl e \<Longrightarrow> main_loop idx (Inr line # rest) out = \<lparr>stdout = out, fault = Some e\<rparr>"
  by simp

subsection \<open>Newlines in the output\<close>

lemma join_set: "set (join sep xs) \<subseteq> set sep \<union> \<Union> (set ` set xs)"
  by (induction sep xs rule: join.induct) auto

lemma getitem_in_set: "getitem xs i = Inr v \<Longrightarrow> v \<in> set xs"
  by (auto simp: getitem_def split: if_splits)

lemma select_fields_subset: "select_fields fs idx = Inr sel \<Longrightarrow> set sel \<subseteq> set fs"
proof (induction idx arbitrary: sel)
  case Nil
  then show ?case by simp
next
  case (Cons x idx)
  then show ?case
    by (auto split: sum.splits dest: getitem_in_set)
qed

lemma reader_line_stripped:
  assumes "l \<noteq> []" and "nl \<notin> set (butlast l)"
  shows "nl \<notin> set (rstrip [nl] l)"
proof -
  obtain b c where bc: "l = b @ [c]" using assms(1) by (metis rev_exhaust)
  then have b: "nl \<notin> set b" using assms(2) by simp
  then have rb: "rstrip [nl] b = b" by (metis last_in_set rstrip_id)
  show ?thesis
  proof (cases "c = nl")
    case True
    then have "rstrip [nl] l = b" using bc rb by (simp add: rstrip_snoc_nl)
    then show ?thesis using b by simp
  next
    case False
    then have "rstrip [nl] l = l" using bc by (intro rstrip_id) simp
    then show ?thesis using b bc False by simp
  qed
qed

lemma cut_line_no_newline:
  assumes "nl \<notin> set (rstrip [nl] l)" and "cut_line idx l = Inr s"
  shows "nl \<notin> set s"
proof -
  from assms(2) obtain sel where sel: "select_fields (line_fields l) idx = Inr sel"
    and s: "s = join [tab] sel"
    by (auto simp: cut_line_def split: sum.splits)
  have "\<Union> (set ` set sel) \<subseteq> set (rstrip [nl] l)"
    using select_fields_subset[OF sel] split_subset[of _ tab "rstrip [nl] l"]
    by (auto simp: line_fields_def)
  then have "set s \<subseteq> {tab} \<union> set (rstrip [nl] l)"
    using join_set[of "[tab]" sel] s by (simp add: subset_iff) blast
  moreover have "nl \<noteq> tab" by (simp add: nl_def tab_def)
  ultimately show ?thesis using assms(1) by auto
qed

lemma main_loop_output_lines:
  assumes "\<forall>l. Inr l \<in> set items \<longrightarrow> nl \<notin> set (rstrip [nl] l)"
  shows "\<exists>outs. stdout (main_loop idx items out) = out @ concat (map (\<lambda>s. s @ [nl]) outs) \<and>
           (\<forall>s\<in>set outs. nl \<notin> set s) \<and>
           (fault (main_loop idx items out) = None \<longrightarrow> length outs = length items)"
  using assms
proof (induction idx items out rule: main_loop.induct)
  case (1 idx out)
  have "stdout (main_loop idx [] out) = out @ concat (map (\<lambda>s. s @ [nl]) [])" by simp
  then show ?case by (intro exI[of _ "[]"]) simp
next
  case (2 idx e rest out)
  show ?case by (intro exI[of _ "[]"]) simp
next
  case (3 idx line rest out)
  show ?case
  proof (cases "cut_line idx line")
    case (Inl e)
    then show ?thesis by (intro exI[of _ "[]"]) simp
  next
    case (Inr s)
    have "nl \<notin> set (rstrip [nl] line)" using "3.prems" by simp
    then have s: "nl \<notin> set s" using Inr by (rule cut_line_no_newline)
    have "\<forall>l. Inr l \<in> set rest \<longrightarrow> nl \<notin> set (rstrip [nl] l)" using "3.prems" by simp
    from "3.IH"[OF Inr this] obtain outs where
      o: "stdout (main_loop idx rest (print out s)) = print out s @ concat (map (\<lambda>s. s @ [nl]) outs)"
      and n: "\<forall>s\<in>set outs. nl \<notin> set s"
      and f: "fault (main_loop idx rest (print out s)) = None \<longrightarrow> length outs = length rest"
      by auto
    show ?thesis
      using Inr o n f s by (intro exI[of _ "s # outs"]) (simp add: print_def)
  qed
qed

subsection \<open>Appended newlines and repeated indices\<close>





lemma select_fields_replicate:
  "getitem fs x = Inr f \<Longrightarrow> select_fields fs (replicate k x) = Inr (replicate k f)"
  by (induction k) simp_all

lemma main_loop_single:
  "cut_line idx line = Inr s \<Longrightarrow>
   main_loop idx [Inr line] out = \<lparr>stdout = out @ s @ [nl], fault = None\<rparr>"
  by (simp add: print_def)

section \<open>The claims\<close>

text \<open>
  C1. For every input line with at least as many tab-separated fields as the largest
  requested (1-based, hence positive) position, the loop body raises nothing and the line
  it prints is the tab-join of the fields at the requested positions, in the order of the
  positions on the command line. The fields of a line are the pieces between the tabs of
  the line without its line terminator.
\<close>

theorem requested_fields_in_order:
  assumes "ps \<noteq> []" and "\<forall>p\<in>set ps. 1 \<le> p"
    and "Max (set ps) \<le> int (length (line_fields line))"
  shows "cut_line (field_indicies ps) line =
           Inr (join [tab] (map (\<lambda>p. line_fields line ! (nat p - 1)) ps)) \<and>
         main_loop (field_indicies ps) (Inr line # rest) out =
           main_loop (field_indicies ps) rest
             (out @ join [tab] (map (\<lambda>p. line_fields line ! (nat p - 1)) ps) @ [nl])"
proof -
  have le: "\<forall>p\<in>set ps. p \<le> int (length (line_fields line))"
    using assms(1,3) by (simp add: Max_le_iff)
  have rng: "\<forall>p\<in>set ps. 1 - int (length (line_fields line)) \<le> p \<and> p \<le> int (length (line_fields line))"
    using assms(2) le by auto
  have "map (\<lambda>p. if p \<le> 0 then rev (line_fields line) ! nat (- p)
                  else line_fields line ! (nat p - 1)) ps
      = map (\<lambda>p. line_fields line ! (nat p - 1)) ps"
    using assms(2) by (intro map_cong[OF refl]) auto
  then have c: "cut_line (field_indicies ps) line =
           Inr (join [tab] (map (\<lambda>p. line_fields line ! (nat p - 1)) ps))"
    using cut_line_in_range[OF rng] by (simp only:)
  show ?thesis using c main_loop_step[OF c] by (simp only:)
qed

theorem requested_fields_in_order_witness:
  "cut_line (field_indicies [1, 3]) (''alice'' @ [tab] @ ''30'' @ [tab] @ ''engineer'' @ [nl]) =
     Inr (''alice'' @ [tab] @ ''engineer'') \<and>
   main_loop (field_indicies [1, 3]) [Inr (''alice'' @ [tab] @ ''30'' @ [tab] @ ''engineer'' @ [nl])] [] =
     \<lparr>stdout = ''alice'' @ [tab] @ ''engineer'' @ [nl], fault = None\<rparr>"
  using requested_fields_in_order [of "[1, 3]" "''alice'' @ [tab] @ ''30'' @ [tab] @ ''engineer'' @ [nl]" "[]" "[]"]
  by (simp add: line_fields_def rstrip_def print_def tab_def nl_def)

text \<open>
  C2, as stated: position 0, and on a blank line every position other than 1, raises an
  index fault. It does not: on the blank line read from the standard input, position 0
  selects the (empty) last field and the run ends normally.
\<close>

theorem position_zero_faults_counterexample:
  "cut_line (field_indicies [0]) [nl] = Inr [] \<and>
   main Map.empty [nl] [0] [] = \<lparr>stdout = [nl], fault = None\<rparr>"
  by (simp add: main_def fileinput_input_def cut_line_def field_indicies_def line_fields_def
      rstrip_def getitem_def print_def)

text \<open>
  C2, amended. On a line with \<open>n\<close> fields a position \<open>p\<close> raises \<open>IndexError\<close> exactly
  when \<open>p > n\<close> or \<open>p < 1 - n\<close>, that is when the index \<open>p - 1\<close> lies outside
  \<open>-n .. n - 1\<close>; the fault ends the run at that line. In particular, on a blank line
  (one empty field) the positions that fault are those other than 0 and 1. Position 0
  never faults: it selects the last field.
\<close>

theorem index_fault_range:
  "(cut_line (field_indicies ps) line = Inl IndexError \<longleftrightarrow>
      (\<exists>p\<in>set ps. p < 1 - int (length (line_fields line)) \<or> int (length (line_fields line)) < p)) \<and>
   (cut_line (field_indicies ps) line = Inl IndexError \<longrightarrow>
      main_loop (field_indicies ps) (Inr line # rest) out = \<lparr>stdout = out, fault = Some IndexError\<rparr>) \<and>
   (rstrip [nl] line = [] \<longrightarrow>
      (cut_line (field_indicies ps) line = Inl IndexError \<longleftrightarrow> (\<exists>p\<in>set ps. p \<noteq> 0 \<and> p \<noteq> 1))) \<and>
   cut_line (field_indicies [0]) line = Inr (last (line_fields line))"
proof (intro conjI impI)
  have "\<forall>q\<in>set [0]. 1 - int (length (line_fields line)) \<le> q \<and> q \<le> int (length (line_fields line))"
    using line_fields_not_Nil[of line] by (cases "line_fields line") simp_all
  from cut_line_in_range[OF this]
  show "cut_line (field_indicies [0]) line = Inr (last (line_fields line))"
    by (simp add: hd_rev[symmetric] hd_conv_nth)
next
  show "cut_line (field_indicies ps) line = Inl IndexError \<longleftrightarrow>
      (\<exists>p\<in>set ps. p < 1 - int (length (line_fields line)) \<or> int (length (line_fields line)) < p)"
    by (rule cut_line_Inl_iff)
next
  assume "cut_line (field_indicies ps) line = Inl IndexError"
  then show "main_loop (field_indicies ps) (Inr line # rest) out = \<lparr>stdout = out, fault = Some IndexError\<rparr>"
    by (rule main_loop_fault_step)
next
  assume "rstrip [nl] line = []"
  then have "line_fields line = [[]]" by (simp add: line_fields_def)
  then have "cut_line (field_indicies ps) line = Inl IndexError \<longleftrightarrow>
      (\<exists>p\<in>set ps. p < 0 \<or> 1 < p)"
    by (simp add: cut_line_Inl_iff)
  also have "\<dots> \<longleftrightarrow> (\<exists>p\<in>set ps. p \<noteq> 0 \<and> p \<noteq> 1)"
  proof -
    have "(p < 0 \<or> 1 < p) \<longleftrightarrow> (p \<noteq> 0 \<and> p \<noteq> 1)" for p :: int by linarith
    then show ?thesis by simp
  qed
  finally show "cut_line (field_indicies ps) line = Inl IndexError \<longleftrightarrow> (\<exists>p\<in>set ps. p \<noteq> 0 \<and> p \<noteq> 1)" .
qed

theorem index_fault_range_witness:
  "cut_line (field_indicies [2]) [nl] = Inl IndexError \<and>
   main_loop (field_indicies [2]) [Inr [nl], Inr ''a''] [] = \<lparr>stdout = [], fault = Some IndexError\<rparr>"
  using index_fault_range [of "[2]" "[nl]" "[Inr ''a'']" "[]"]
  by (simp add: rstrip_def line_fields_def)

text \<open>
  C3. When every requested position is positive and a line has fewer fields than the
  largest of them, the lookup on that line raises \<open>IndexError\<close>, which nothing catches:
  the run ends there with a non-zero exit status, the standard output holds exactly what
  the earlier lines produced, and the lines after it have no effect on the outcome.
\<close>

theorem short_line_is_fatal:
  assumes "ps \<noteq> []" and "\<forall>p\<in>set ps. 1 \<le> p"
    and "int (length (line_fields line)) < Max (set ps)"
  shows "cut_line (field_indicies ps) line = Inl IndexError \<and>
         main_loop (field_indicies ps) (map Inr earlier @ Inr line # later) out =
           \<lparr>stdout = stdout (main_loop (field_indicies ps) (map Inr earlier) out),
            fault = Some IndexError\<rparr> \<and>
         exit_status (main_loop (field_indicies ps) (map Inr earlier @ Inr line # later) out) = 1"
proof -
  let ?idx = "field_indicies ps"
  let ?r = "main_loop ?idx (map Inr earlier) out"
  have "Max (set ps) \<in> set ps" using assms(1) by (intro Max_in) simp_all
  then have "\<exists>p\<in>set ps. p < 1 - int (length (line_fields line)) \<or> int (length (line_fields line)) < p"
    using assms(3) by blast
  then have c: "cut_line ?idx line = Inl IndexError"
    by (simp only: cut_line_Inl_iff)
  have run: "main_loop ?idx (map Inr earlier @ Inr line # later) out =
      \<lparr>stdout = stdout ?r, fault = Some IndexError\<rparr>"
  proof (cases "fault ?r = None")
    case True
    then show ?thesis
      using c by (simp add: main_loop_append)
  next
    case False
    then have "fault ?r = Some IndexError"
      using main_loop_lines_fault[of ?idx earlier out] by (elim disjE; simp)
    then have "?r = \<lparr>stdout = stdout ?r, fault = Some IndexError\<rparr>" by simp
    then show ?thesis
      using False by (simp only: main_loop_append[of ?idx "map Inr earlier"] if_False)
  qed
  show ?thesis using c run by (simp add: exit_status_def)
qed

theorem short_line_is_fatal_witness:
  "main_loop (field_indicies [1, 3])
     [Inr (''a'' @ [tab] @ ''b'' @ [tab] @ ''c'' @ [nl]),
      Inr (''alice'' @ [tab] @ ''30'' @ [nl]),
      Inr (''x'' @ [tab] @ ''y'' @ [tab] @ ''z'' @ [nl])] [] =
   \<lparr>stdout = ''a'' @ [tab] @ ''c'' @ [nl], fault = Some IndexError\<rparr>"
  using short_line_is_fatal [of "[1, 3]" "''alice'' @ [tab] @ ''30'' @ [nl]"
      "[''a'' @ [tab] @ ''b'' @ [tab] @ ''c'' @ [nl]]"
      "[Inr (''x'' @ [tab] @ ''y'' @ [tab] @ ''z'' @ [nl])]" "[]"]
  by (simp add: line_fields_def rstrip_def print_def cut_line_def field_indicies_def
      getitem_def tab_def nl_def)




text \<open>
  C5, as stated: running over the files \<open>[A, B]\<close> gives the output of running over one
  file holding A's content followed by B's. It does not when A's last line has no
  newline: the file list yields that line on its own, the single file joins it with the
  first line of B.
\<close>

theorem file_list_concatenation_counterexample:
  "main (Map.empty(''A'' \<mapsto> ''a'', ''B'' \<mapsto> ''b'', ''AB'' \<mapsto> ''ab'')) [] [1] [''A'', ''B''] =
     \<lparr>stdout = ''a'' @ [nl] @ ''b'' @ [nl], fault = None\<rparr> \<and>
   main (Map.empty(''A'' \<mapsto> ''a'', ''B'' \<mapsto> ''b'', ''AB'' \<mapsto> ''ab'')) [] [1] [''AB''] =
     \<lparr>stdout = ''ab'' @ [nl], fault = None\<rparr> \<and>
   main (Map.empty(''A'' \<mapsto> ''a'', ''B'' \<mapsto> ''b'', ''AB'' \<mapsto> ''ab'')) [] [1] [''A'', ''B''] \<noteq>
   main (Map.empty(''A'' \<mapsto> ''a'', ''B'' \<mapsto> ''b'', ''AB'' \<mapsto> ''ab'')) [] [1] [''AB'']"
  by (simp add: main_def fileinput_input_def cut_line_def field_indicies_def line_fields_def
      rstrip_def getitem_def print_def tab_def nl_def)

text \<open>
  C5, amended. For files A and B (named files, not the standard input) and every field
  list, running over \<open>[A, B]\<close> leaves the same output and the same fault, if any, as
  running over a single file whose content is A's followed by B's, provided that A's
  content is empty or ends with a newline, or B's content is empty.
\<close>

theorem file_list_concatenation:
  assumes "fs a = Some A" and "fs b = Some B" and "fs c = Some (A @ B)"
    and "a \<noteq> ''-''" and "b \<noteq> ''-''" and "c \<noteq> ''-''"
    and "A = [] \<or> B = [] \<or> last A = nl"
  shows "main fs sin ps [a, b] = main fs sin ps [c]"
proof -
  have "readlines (A @ B) = readlines A @ readlines B"
  proof (cases "B = []")
    case True
    then show ?thesis by simp
  next
    case False
    then have "A = [] \<or> last A = nl" using assms(7) by simp
    then show ?thesis by (rule readlines_append)
  qed
  then have "fileinput_input fs sin [a, b] = fileinput_input fs sin [c]"
    using assms(1-6) by (simp add: fileinput_input_def)
  then show ?thesis by (simp only: main_def)
qed

theorem file_list_concatenation_witness:
  "main (Map.empty(''A'' \<mapsto> ''a'' @ [nl], ''B'' \<mapsto> ''b'', ''AB'' \<mapsto> ''a'' @ [nl] @ ''b''))
      [] [1] [''A'', ''B''] =
   main (Map.empty(''A'' \<mapsto> ''a'' @ [nl], ''B'' \<mapsto> ''b'', ''AB'' \<mapsto> ''a'' @ [nl] @ ''b''))
      [] [1] [''AB'']"
  using file_list_concatenation [of
      "Map.empty(''A'' \<mapsto> ''a'' @ [nl], ''B'' \<mapsto> ''b'', ''AB'' \<mapsto> ''a'' @ [nl] @ ''b'')"
      "''A''" "''a'' @ [nl]" "''B''" "''b''" "''AB''" "[]" "[1]"]
  by simp

text \<open>
  C6. Identity: on a line of exactly \<open>n\<close> tab-separated fields, the positions
  \<open>1, 2, ..., n\<close> in that order reproduce the line: the printed text is the line without
  its terminator, followed by the newline of \<open>print\<close>; for a line that ends in its one
  newline the output is the line itself.
\<close>

theorem all_fields_identity:
  assumes "length (line_fields line) = n"
  shows "cut_line (field_indicies (map int [1..<Suc n])) line = Inr (rstrip [nl] line) \<and>
         main_loop (field_indicies (map int [1..<Suc n])) (Inr line # rest) out =
           main_loop (field_indicies (map int [1..<Suc n])) rest (out @ rstrip [nl] line @ [nl]) \<and>
         (nl \<notin> set s \<and> line = s @ [nl] \<longrightarrow>
            main_loop (field_indicies (map int [1..<Suc n])) [Inr line] out =
              \<lparr>stdout = out @ line, fault = None\<rparr>)"
proof -
  let ?ps = "map int [1..<Suc n]"
  let ?fs = "line_fields line"
  have rng: "\<forall>p\<in>set ?ps. 1 - int (length ?fs) \<le> p \<and> p \<le> int (length ?fs)"
    using assms by auto
  have shift: "[1..<Suc n] = map Suc [0..<n]"
    by (simp only: map_Suc_upt One_nat_def)
  have "map (\<lambda>p. if p \<le> 0 then rev ?fs ! nat (- p) else ?fs ! (nat p - 1)) ?ps
      = map (\<lambda>i. ?fs ! i) [0..<n]"
  proof -
    have "nat (1 + int i) - Suc 0 = i" for i by simp
    then show ?thesis unfolding shift by (simp add: comp_def)
  qed
  also have "\<dots> = ?fs" using assms map_nth[of ?fs] by simp
  finally have c: "cut_line (field_indicies ?ps) line = Inr (rstrip [nl] line)"
    using cut_line_in_range[OF rng] by (simp only: join_line_fields)
  have "nl \<notin> set s \<Longrightarrow> rstrip [nl] (s @ [nl]) = s"
    by (simp add: rstrip_snoc_nl rstrip_id) (metis last_in_set rstrip_id)
  then show ?thesis using c main_loop_step[OF c] by (auto simp: print_def)
qed

theorem all_fields_identity_witness:
  "cut_line (field_indicies [1, 2, 3]) (''a'' @ [tab] @ ''b'' @ [tab] @ ''c'' @ [nl]) =
     Inr (''a'' @ [tab] @ ''b'' @ [tab] @ ''c'') \<and>
   main_loop (field_indicies [1, 2, 3]) [Inr (''a'' @ [tab] @ ''b'' @ [tab] @ ''c'' @ [nl])] [] =
     \<lparr>stdout = ''a'' @ [tab] @ ''b'' @ [tab] @ ''c'' @ [nl], fault = None\<rparr>"
  using all_fields_identity [of "''a'' @ [tab] @ ''b'' @ [tab] @ ''c'' @ [nl]" 3 "[]" "[]"
      "''a'' @ [tab] @ ''b'' @ [tab] @ ''c''"]
  by (simp add: line_fields_def rstrip_def print_def tab_def nl_def upt_conv_Cons)

text \<open>
  C7. A position requested more than once is emitted once per occurrence, in place: the
  positions \<open>[2, 2]\<close> on the line \<open>a<TAB>b<TAB>c\<close> print the line \<open>b<TAB>b\<close>. In general
  the line written to the standard output, without its newline, has one field per
  requested position, the \<open>i\<close>-th of them being the field that the \<open>i\<close>-th position
  selects; and a position that selects the field \<open>f\<close>, requested \<open>k\<close> times, prints
  \<open>f\<close> \<open>k\<close> times, joined by tabs.
\<close>

theorem repeated_position_repeats_field:
  "cut_line (field_indicies [2, 2]) (''a'' @ [tab] @ ''b'' @ [tab] @ ''c'') =
     Inr (''b'' @ [tab] @ ''b'') \<and>
   main Map.empty (''a'' @ [tab] @ ''b'' @ [tab] @ ''c'' @ [nl]) [2, 2] [] =
     \<lparr>stdout = ''b'' @ [tab] @ ''b'' @ [nl], fault = None\<rparr> \<and>
   (ps \<noteq> [] \<and> cut_line (field_indicies ps) line = Inr out \<longrightarrow>
      length (split tab out) = length ps \<and>
      (\<forall>i<length ps. getitem (line_fields line) (ps ! i - 1) = Inr (split tab out ! i)) \<and>
      main_loop (field_indicies ps) (Inr line # rest) acc =
        main_loop (field_indicies ps) rest (acc @ out @ [nl]) \<and>
      main_loop (field_indicies ps) [Inr line] acc = \<lparr>stdout = acc @ out @ [nl], fault = None\<rparr>) \<and>
   (getitem (line_fields line) (p - 1) = Inr f \<longrightarrow>
      cut_line (field_indicies (replicate k p)) line = Inr (join [tab] (replicate k f)) \<and>
      main_loop (field_indicies (replicate k p)) [Inr line] acc =
        \<lparr>stdout = acc @ join [tab] (replicate k f) @ [nl], fault = None\<rparr> \<and>
      main_loop (field_indicies [p, p]) [Inr line] acc =
        \<lparr>stdout = acc @ f @ [tab] @ f @ [nl], fault = None\<rparr>)"
proof (intro conjI impI)
  show "cut_line (field_indicies [2, 2]) (''a'' @ [tab] @ ''b'' @ [tab] @ ''c'') =
     Inr (''b'' @ [tab] @ ''b'')"
    by (simp add: cut_line_def field_indicies_def line_fields_def rstrip_def getitem_def
        tab_def nl_def)
  show "main Map.empty (''a'' @ [tab] @ ''b'' @ [tab] @ ''c'' @ [nl]) [2, 2] [] =
     \<lparr>stdout = ''b'' @ [tab] @ ''b'' @ [nl], fault = None\<rparr>"
    by (simp add: main_def fileinput_input_def cut_line_def field_indicies_def line_fields_def
        rstrip_def getitem_def print_def tab_def nl_def)
next
  assume g: "getitem (line_fields line) (p - 1) = Inr f"
  have fi: "field_indicies (replicate k p) = replicate k (p - 1)" for k
    by (simp add: field_indicies_def)
  show c: "cut_line (field_indicies (replicate k p)) line = Inr (join [tab] (replicate k f))"
    by (simp add: cut_line_def fi select_fields_replicate[OF g])
  show "main_loop (field_indicies (replicate k p)) [Inr line] acc =
        \<lparr>stdout = acc @ join [tab] (replicate k f) @ [nl], fault = None\<rparr>"
    using c by (rule main_loop_single)
  have "cut_line (field_indicies [p, p]) line = Inr (f @ [tab] @ f)"
    using g by (simp add: cut_line_def field_indicies_def)
  then show "main_loop (field_indicies [p, p]) [Inr line] acc =
        \<lparr>stdout = acc @ f @ [tab] @ f @ [nl], fault = None\<rparr>"
    using main_loop_single[of "field_indicies [p, p]" line "f @ [tab] @ f" acc] by simp
next
  assume a: "ps \<noteq> [] \<and> cut_line (field_indicies ps) line = Inr out"
  let ?fs = "line_fields line"
  let ?n = "int (length ?fs)"
  let ?idx = "field_indicies ps"
  from a obtain sel where sel: "select_fields ?fs ?idx = Inr sel" and out: "out = join [tab] sel"
    by (auto simp: cut_line_def split: sum.splits)
  have rng: "\<forall>x\<in>set ?idx. - ?n \<le> x \<and> x < ?n"
    and seleq: "sel = map (\<lambda>x. ?fs ! nat (if x < 0 then ?n + x else x)) ?idx"
    using sel select_fields_Inr_iff[of ?fs ?idx sel] by simp_all
  have len: "length sel = length ps" by (simp add: seleq field_indicies_def)
  have nth: "getitem ?fs (ps ! i - 1) = Inr (sel ! i)" if "i < length ps" for i
  proof -
    have "?idx ! i = ps ! i - 1" using that by (simp add: field_indicies_def)
    moreover have "?idx ! i \<in> set ?idx" using that by (simp add: field_indicies_def)
    ultimately have "- ?n \<le> ps ! i - 1 \<and> ps ! i - 1 < ?n" using rng by metis
    moreover have "sel ! i = ?fs ! nat (if ps ! i - 1 < 0 then ?n + (ps ! i - 1) else ps ! i - 1)"
      using that by (simp add: seleq field_indicies_def)
    ultimately show ?thesis by (simp add: getitem_Inr_iff)
  qed
  have "\<forall>f\<in>set sel. tab \<notin> set f"
  proof
    fix f assume "f \<in> set sel"
    then obtain i where i: "i < length ps" "f = sel ! i"
      using len by (metis in_set_conv_nth)
    then have "getitem ?fs (ps ! i - 1) = Inr f" using nth by simp
    then have "f \<in> set ?fs" by (rule getitem_in_set)
    then show "tab \<notin> set f" unfolding line_fields_def by (rule split_no_sep)
  qed
  moreover have "sel \<noteq> []" using a len by auto
  ultimately have sp: "split tab out = sel" unfolding out by (intro split_join)
  show "length (split tab out) = length ps" using sp len by simp
  show "\<forall>i<length ps. getitem ?fs (ps ! i - 1) = Inr (split tab out ! i)"
    using sp nth by simp
  from a have c: "cut_line ?idx line = Inr out" by simp
  show "main_loop ?idx (Inr line # rest) acc = main_loop ?idx rest (acc @ out @ [nl])"
    using c by (rule main_loop_step)
  show "main_loop ?idx [Inr line] acc = \<lparr>stdout = acc @ out @ [nl], fault = None\<rparr>"
    using c by (rule main_loop_single)
qed

theorem repeated_position_repeats_field_witness:
  "main_loop (field_indicies [2, 2]) [Inr (''a'' @ [tab] @ ''b'' @ [tab] @ ''c'' @ [nl])] [] =
     \<lparr>stdout = ''b'' @ [tab] @ ''b'' @ [nl], fault = None\<rparr> \<and>
   split tab (''b'' @ [tab] @ ''b'') = [''b'', ''b''] \<and>
   getitem (line_fields (''a'' @ [tab] @ ''b'' @ [tab] @ ''c'' @ [nl])) ([2, 2] ! 0 - 1) = Inr ''b'' \<and>
   getitem (line_fields (''a'' @ [tab] @ ''b'' @ [tab] @ ''c'' @ [nl])) ([2, 2] ! 1 - 1) = Inr ''b'' \<and>
   main_loop (field_indicies (replicate 3 2)) [Inr (''a'' @ [tab] @ ''b'' @ [tab] @ ''c'' @ [nl])] [] =
     \<lparr>stdout = ''b'' @ [tab] @ ''b'' @ [tab] @ ''b'' @ [nl], fault = None\<rparr>"
  using repeated_position_repeats_field [of "[2, 2]" "''a'' @ [tab] @ ''b'' @ [tab] @ ''c'' @ [nl]"
      "''b'' @ [tab] @ ''b''" "[]" "[]" 2 "''b''" 3]
  by (simp add: line_fields_def rstrip_def getitem_def cut_line_def field_indicies_def
      print_def tab_def nl_def numeral_3_eq_3)

text \<open>
  C8. On empty input, that is an empty standard input when it is read (no file named, or
  the name \<open>-\<close>) and empty content for every named file, the program writes nothing and
  exits with status 0.
\<close>

theorem empty_input_empty_output:
  assumes "args_files = [] \<or> ''-'' \<in> set args_files \<longrightarrow> sin = []"
    and "\<forall>f\<in>set args_files. f \<noteq> ''-'' \<longrightarrow> fs f = Some []"
  shows "main fs sin args_fields args_files = \<lparr>stdout = [], fault = None\<rparr> \<and>
         exit_status (main fs sin args_fields args_files) = 0"
proof -
  have "fileinput_input fs sin args_files = []"
  proof (cases "args_files = []")
    case True
    then have "sin = []" using assms(1) by simp
    then show ?thesis using True by (simp add: fileinput_input_def)
  next
    case False
    have "fileinput_lines fs sin args_files = []"
      using assms by (intro fileinput_lines_empty) auto
    then show ?thesis using False by (simp add: fileinput_input_def)
  qed
  then show ?thesis by (simp add: main_def exit_status_def)
qed

theorem empty_input_empty_output_witness:
  "main Map.empty [] [1, 3] [] = \<lparr>stdout = [], fault = None\<rparr> \<and>
   exit_status (main Map.empty [] [1, 3] []) = 0 \<and>
   main (Map.empty(''A'' \<mapsto> [], ''B'' \<mapsto> [])) ''unread'' [2] [''A'', ''B''] =
     \<lparr>stdout = [], fault = None\<rparr>"
  using empty_input_empty_output [of "[]" "[]" Map.empty "[1, 3]"]
    empty_input_empty_output [of "[''A'', ''B'']" "''unread''"
      "Map.empty(''A'' \<mapsto> [], ''B'' \<mapsto> [])" "[2]"]
  by (simp add: exit_status_def)

text \<open>
  C9. A position \<open>p \<le> 0\<close> becomes the negative index \<open>p - 1\<close>, which counts from the end
  of the line: on a line with at least \<open>1 - p\<close> fields nothing is raised and the field
  selected, and printed, is the one \<open>- p\<close> places before the last; position 0 gives the
  last field, position -1 the one before it.
\<close>

theorem nonpositive_position_counts_from_end:
  assumes "p \<le> 0" and "1 - p \<le> int (length (line_fields line))"
  shows "cut_line (field_indicies [p]) line = Inr (rev (line_fields line) ! nat (- p)) \<and>
         (p = 0 \<longrightarrow> cut_line (field_indicies [p]) line = Inr (last (line_fields line))) \<and>
         (p = - 1 \<longrightarrow> cut_line (field_indicies [p]) line =
                        Inr (line_fields line ! (length (line_fields line) - 2))) \<and>
         main_loop (field_indicies [p]) (Inr line # rest) out =
           main_loop (field_indicies [p]) rest (out @ rev (line_fields line) ! nat (- p) @ [nl]) \<and>
         main_loop (field_indicies [p]) [Inr line] out =
           \<lparr>stdout = out @ rev (line_fields line) ! nat (- p) @ [nl], fault = None\<rparr>"
proof -
  let ?fs = "line_fields line"
  have rng: "\<forall>q\<in>set [p]. 1 - int (length ?fs) \<le> q \<and> q \<le> int (length ?fs)"
    using assms by simp
  have c: "cut_line (field_indicies [p]) line = Inr (rev ?fs ! nat (- p))"
    using cut_line_in_range[OF rng] assms(1) by simp
  have z: "rev ?fs ! 0 = last ?fs"
    by (simp add: hd_rev[symmetric] hd_conv_nth)
  have m: "p = - 1 \<Longrightarrow> rev ?fs ! 1 = ?fs ! (length ?fs - 2)"
    using assms(2) rev_nth[of 1 ?fs] by (simp add: numeral_2_eq_2)
  show ?thesis using c z m main_loop_step[OF c, of rest out] main_loop_single[OF c, of out]
    by auto
qed

theorem nonpositive_position_counts_from_end_witness:
  "cut_line (field_indicies [- 1]) (''a'' @ [tab] @ ''b'' @ [tab] @ ''c'' @ [nl]) = Inr ''b'' \<and>
   main_loop (field_indicies [- 1]) [Inr (''a'' @ [tab] @ ''b'' @ [tab] @ ''c'' @ [nl])] [] =
     \<lparr>stdout = ''b'' @ [nl], fault = None\<rparr>"
  using nonpositive_position_counts_from_end [of "- 1" "''a'' @ [tab] @ ''b'' @ [tab] @ ''c'' @ [nl]"
      "[]" "[]"]
  by (simp add: line_fields_def rstrip_def print_def tab_def nl_def)

text \<open>
  C10. Every line the program emits is terminated by exactly one newline: the standard
  output of any run is a sequence of newline-free strings, each followed by one newline,
  one for every input line when the run ends normally. That includes the line produced
  for a last input line without a trailing newline, since \<open>print\<close> appends the newline
  whatever the line was.
\<close>

theorem output_lines_newline_terminated:
  "\<exists>outs. stdout (main fs sin args_fields args_files) = concat (map (\<lambda>s. s @ [nl]) outs) \<and>
     (\<forall>s\<in>set outs. nl \<notin> set s) \<and>
     (fault (main fs sin args_fields args_files) = None \<longrightarrow>
        length outs = length (fileinput_input fs sin args_files))"
proof -
  have "\<forall>l. Inr l \<in> set (fileinput_input fs sin args_files) \<longrightarrow> nl \<notin> set (rstrip [nl] l)"
    using fileinput_input_wf reader_line_stripped by blast
  from main_loop_output_lines[OF this, of "field_indicies args_fields" "[]"]
  show ?thesis by (simp add: main_def)
qed

theorem output_lines_newline_terminated_witness:
  "main Map.empty (''x'' @ [tab] @ ''y'' @ [nl] @ ''a'' @ [tab] @ ''b'') [2] [] =
     \<lparr>stdout = concat (map (\<lambda>s. s @ [nl]) [''y'', ''b'']), fault = None\<rparr> \<and>
   nl \<notin> set ''y'' \<and> nl \<notin> set ''b'' \<and>
   length (fileinput_input Map.empty (''x'' @ [tab] @ ''y'' @ [nl] @ ''a'' @ [tab] @ ''b'') []) = 2"
  using output_lines_newline_terminated [of Map.empty
      "''x'' @ [tab] @ ''y'' @ [nl] @ ''a'' @ [tab] @ ''b''" "[2]" "[]"]
  by (simp add: main_def fileinput_input_def cut_line_def field_indicies_def line_fields_def
      rstrip_def getitem_def print_def tab_def nl_def)

end
